theory Spec2Isabelle
  imports Complex_Main
begin

section \<open>The combustor script PSR.py\<close>

text \<open>
  PSR.py is a flat script. It builds a reactor network with the Cantera library, steps it to
  6 s while writing a down-sampled trace to combustor.csv, then reads the file back column
  by column. The library objects are opaque: the model takes what the library returns (the
  time after a step, the reactor mass, temperature and mole fractions, the valve flow) as
  inputs and embeds the script's own logic.

  Python floats are modelled as \<^typ>\<open>real\<close>, except for the igniter flow as the script
  computes it, \<open>igniter_mdot_py\<close>, which rounds every operation to a double.
\<close>

subsection \<open>The igniter pulse (lines 69 to 72)\<close>

definition fwhm :: real where
  "fwhm = 0.2"

definition amplitude :: real where
  "amplitude = 1.0"

definition t0 :: real where
  "t0 = 0.4"

text \<open>
  \<^verbatim>\<open>igniter_mdot = lambda t: amplitude * math.exp(-(t-t0)**2 * 4 * math.log(2) / fwhm**2)\<close>
  The unary minus applies to the square, and the product is divided by \<^verbatim>\<open>fwhm**2\<close>.
  \<open>igniter_mdot\<close> is the formula over the reals; \<open>igniter_mdot_py\<close> below is its
  evaluation on doubles.
\<close>

definition igniter_mdot :: "real \<Rightarrow> real" where
  "igniter_mdot t = amplitude * exp (- ((t - t0)\<^sup>2) * 4 * ln 2 / fwhm\<^sup>2)"

subsection \<open>The igniter pulse as computed\<close>










subsection \<open>What the library reports, and what the script keeps\<close>

text \<open>
  One iteration of the loop queries the library four times after the step:
  \<^verbatim>\<open>sim.step(tfinal)\<close>, \<^verbatim>\<open>combustor.mass\<close>, \<^verbatim>\<open>v.mdot(tnow)\<close>, \<^verbatim>\<open>combustor.T\<close>
  (read twice with no step in between) and \<^verbatim>\<open>combustor.thermo.X\<close>. The script passes
  nothing back to the library except the constant \<^verbatim>\<open>tfinal\<close>, so a run of the library is
  the list of these reports, one per step.
\<close>

record step =
  sim_step :: real
  combustor_mass :: real
  v_mdot :: real
  combustor_T :: real
  thermo_X :: "real list"

datatype py_error = ZeroDivisionError | KeyError | IndexError | TypeError

text \<open>A value handed to \<^verbatim>\<open>csvwriter.writerow\<close>: a column name or a float.\<close>

datatype pyval = PyStr string | PyFloat real

text \<open>
  The script's variables. \<^verbatim>\<open>tres\<close> and \<^verbatim>\<open>Tnow\<close> are unbound until the first iteration
  assigns them. \<open>outfile\<close> is the sequence of rows passed to \<^verbatim>\<open>writerow\<close> so far.
\<close>

record state =
  tnow :: real
  Tprev :: real
  tprev :: real
  tres :: "real option"
  Tnow :: "real option"
  outfile :: "pyval list list"

definition tfinal :: real where
  "tfinal = 6.0"

text \<open>\<^verbatim>\<open>fieldnames = ['time','T','tres']+combustor.thermo.species_names\<close>\<close>

definition fieldnames :: "string list \<Rightarrow> string list" where
  "fieldnames species_names = [''time'', ''T'', ''tres''] @ species_names"

definition writerow :: "pyval list \<Rightarrow> state \<Rightarrow> state" where
  "writerow row s = s\<lparr>outfile := outfile s @ [row]\<rparr>"

text \<open>
  Lines 83 to 90: the state before the loop. \<open>T0\<close> is \<^verbatim>\<open>combustor.T\<close> before any step.
\<close>

definition init :: "string list \<Rightarrow> real \<Rightarrow> state" where
  "init species_names T0 =
     writerow (map PyStr (fieldnames species_names))
       \<lparr>tnow = 0.0, Tprev = T0, tprev = 0.0, tres = None, Tnow = None, outfile = []\<rparr>"

text \<open>The test of line 97, on the new time and temperature against the two trackers.\<close>

definition sample_due :: "state \<Rightarrow> real \<Rightarrow> real \<Rightarrow> bool" where
  "sample_due s t T = (\<bar>T - Tprev s\<bar> > 1.0 \<or> t - tprev s > 2 / 100)"

text \<open>
  The row of line 100, \<^verbatim>\<open>[tnow, combustor.T, tres] + list(combustor.thermo.X)\<close>, in terms
  of what the library reported for the step.
\<close>

definition record_of :: "step \<Rightarrow> pyval list" where
  "record_of st =
     [PyFloat (sim_step st), PyFloat (combustor_T st), PyFloat (combustor_mass st / v_mdot st)]
       @ map PyFloat (thermo_X st)"

text \<open>
  Lines 94 to 100, one iteration. A float division by zero raises \<^verbatim>\<open>ZeroDivisionError\<close>;
  nothing catches it, so the error carries the variables as they were when it was raised.
  The test reads \<^verbatim>\<open>Tnow\<close>, the row reads \<^verbatim>\<open>combustor.T\<close> again.
\<close>

definition loop_body :: "step \<Rightarrow> state \<Rightarrow> (py_error \<times> state) + state" where
  "loop_body st s =
     (let s1 = s\<lparr>tnow := sim_step st\<rparr> in
      if v_mdot st = 0 then Inl (ZeroDivisionError, s1)
      else
        let s2 = s1\<lparr>tres := Some (combustor_mass st / v_mdot st)\<rparr>;
            s3 = s2\<lparr>Tnow := Some (combustor_T st)\<rparr>
        in if sample_due s3 (tnow s3) (the (Tnow s3))
           then Inr (writerow
                  ([PyFloat (tnow s3), PyFloat (combustor_T st), PyFloat (the (tres s3))]
                     @ map PyFloat (thermo_X st))
                  (s3\<lparr>tprev := tnow s3, Tprev := the (Tnow s3)\<rparr>))
           else Inr s3)"

text \<open>
  Lines 93 to 100. The loop may run for ever, so it is run on the reports of finitely many
  steps: \<open>Running\<close> is the loop still asking for a step after all of them, \<open>Exited\<close> is
  the loop left through its condition, \<open>Raised\<close> is the uncaught exception.
\<close>

datatype outcome = Running state | Exited state | Raised py_error state

fun while_loop :: "step list \<Rightarrow> state \<Rightarrow> outcome" where
  "while_loop [] s = (if tnow s < tfinal then Running s else Exited s)"
| "while_loop (st # rest) s =
     (if tnow s < tfinal
      then (case loop_body st s of
              Inl (e, s') \<Rightarrow> Raised e s'
            | Inr s' \<Rightarrow> while_loop rest s')
      else Exited s)"

text \<open>The variables and the table as the run left them.\<close>

fun final :: "outcome \<Rightarrow> state" where
  "final (Running s) = s"
| "final (Exited s) = s"
| "final (Raised e s) = s"

definition write_phase :: "string list \<Rightarrow> real \<Rightarrow> step list \<Rightarrow> outcome" where
  "write_phase species_names T0 steps = while_loop steps (init species_names T0)"

text \<open>
  The time of a written row: the float in its first column. The header row has none.
\<close>

fun row_time :: "pyval list \<Rightarrow> real option" where
  "row_time (PyFloat t # cells) = Some t"
| "row_time cells = None"

subsection \<open>The table as the csv module sees it\<close>

text \<open>
  The csv module is a library and is modelled at the level of rows of fields: what
  \<^verbatim>\<open>csv.writer\<close> writes for a row, \<^verbatim>\<open>csv.reader\<close> parses back to the same fields. A
  column name is written as it is; a float is written as the text \<open>fmt\<close> gives it, for any
  \<open>fmt\<close>. The script is Python 2 (files opened \<^verbatim>\<open>'wb'\<close> and \<^verbatim>\<open>'rb'\<close>).
\<close>

definition csv_field :: "(real \<Rightarrow> string) \<Rightarrow> pyval \<Rightarrow> string" where
  "csv_field fmt v = (case v of PyStr name \<Rightarrow> name | PyFloat x \<Rightarrow> fmt x)"

definition combustor_csv :: "(real \<Rightarrow> string) \<Rightarrow> state \<Rightarrow> string list list" where
  "combustor_csv fmt s = map (map (csv_field fmt)) (outfile s)"

text \<open>
  \<^verbatim>\<open>csv.DictReader\<close> over the open file: the rows of the file, the rows after the file
  position, the field names once read, and the count of lines read so far. The reader
  object has no end-of-file flag, so after \<^verbatim>\<open>csvfile.seek(0)\<close> it reads from the first
  line again, with the field names it already has.
\<close>

record dictreader =
  csvfile :: "string list list"
  unread :: "string list list"
  reader_fieldnames :: "string list option"
  line_num :: nat

definition DictReader :: "string list list \<Rightarrow> dictreader" where
  "DictReader rows = \<lparr>csvfile = rows, unread = rows, reader_fieldnames = None, line_num = 0\<rparr>"

definition seek0 :: "dictreader \<Rightarrow> dictreader" where
  "seek0 d = d\<lparr>unread := csvfile d\<rparr>"

text \<open>\<^verbatim>\<open>self.reader.next()\<close>; \<open>None\<close> is \<^verbatim>\<open>StopIteration\<close>.\<close>

definition reader_next :: "dictreader \<Rightarrow> (string list \<times> dictreader) option" where
  "reader_next d =
     (case unread d of
        [] \<Rightarrow> None
      | row # rest \<Rightarrow> Some (row, d\<lparr>unread := rest, line_num := Suc (line_num d)\<rparr>))"

text \<open>
  The \<^verbatim>\<open>fieldnames\<close> property: when no names are known yet, the next row of the file
  becomes the names; at the end of the file they stay unknown.
\<close>

definition get_fieldnames :: "dictreader \<Rightarrow> dictreader" where
  "get_fieldnames d =
     (if reader_fieldnames d = None
      then (case reader_next d of
              None \<Rightarrow> d
            | Some (row, d') \<Rightarrow> d'\<lparr>reader_fieldnames := Some row\<rparr>)
      else d)"

text \<open>\<^verbatim>\<open>while row == []: row = self.reader.next()\<close>\<close>

function skip_blank :: "string list \<Rightarrow> dictreader \<Rightarrow> (string list \<times> dictreader) option" where
  "skip_blank row d =
     (if row = []
      then (case reader_next d of
              None \<Rightarrow> None
            | Some (row', d') \<Rightarrow> skip_blank row' d')
      else Some (row, d))"
  by pat_completeness auto
termination
  by (relation "measure (\<lambda>(row, d). length (unread d))")
    (auto simp: reader_next_def split: list.splits)

declare skip_blank.simps [simp del]

text \<open>
  \<^verbatim>\<open>dict(zip(self.fieldnames, row))\<close>, then \<^verbatim>\<open>None\<close> for the names a short row leaves
  without a value. A later column wins over an earlier one of the same name. The extra
  fields of a long row go under the key \<^verbatim>\<open>None\<close>, which no lookup by name sees.
\<close>

definition row_dict :: "string list \<Rightarrow> string list \<Rightarrow> (string \<rightharpoonup> string option)" where
  "row_dict names row =
     map_of (rev (zip names (map Some row @ replicate (length names - length row) None)))"

datatype 'a iteration = StopIteration | Yield 'a

text \<open>
  \<^verbatim>\<open>DictReader.next()\<close>. The names are read on the first call (\<^verbatim>\<open>line_num == 0\<close>); blank
  rows are skipped; \<^verbatim>\<open>zip\<close> over names that are still unknown is a \<^verbatim>\<open>TypeError\<close>.
\<close>

definition dict_next ::
  "dictreader \<Rightarrow> (py_error + (string \<rightharpoonup> string option)) iteration \<times> dictreader" where
  "dict_next d =
     (let d1 = (if line_num d = 0 then get_fieldnames d else d) in
      case reader_next d1 of
        None \<Rightarrow> (StopIteration, d1)
      | Some (row, d2) \<Rightarrow>
          (case skip_blank row d2 of
             None \<Rightarrow> (StopIteration, d2\<lparr>unread := [], line_num := line_num d2 + length (unread d2)\<rparr>)
           | Some (row', d3) \<Rightarrow>
               let d4 = get_fieldnames d3 in
               (case reader_fieldnames d4 of
                  None \<Rightarrow> (Yield (Inl TypeError), d4)
                | Some names \<Rightarrow> (Yield (Inr (row_dict names row')), d4))))"

text \<open>
  \<^verbatim>\<open>[row[key] for row in data]\<close>: the reader is run to its end, and a missing key raises
  \<^verbatim>\<open>KeyError\<close>. Every row that is yielded shortens what is left of the file.
\<close>

function column :: "string \<Rightarrow> dictreader \<Rightarrow> (py_error + string option list) \<times> dictreader" where
  "column key d =
     (case dict_next d of
        (StopIteration, d') \<Rightarrow> (Inr [], d')
      | (Yield (Inl e), d') \<Rightarrow> (Inl e, d')
      | (Yield (Inr row), d') \<Rightarrow>
          (case row key of
             None \<Rightarrow> (Inl KeyError, d')
           | Some v \<Rightarrow>
               (case column key d' of
                  (Inl e, d'') \<Rightarrow> (Inl e, d'')
                | (Inr vs, d'') \<Rightarrow> (Inr (v # vs), d''))))"
  by pat_completeness auto
termination
proof (relation "measure (\<lambda>(key, d). length (unread d))", goal_cases)
  case 1
  show ?case by simp
next
  case (2 key d x d' x2 row v)
  then have yield: "dict_next d = (Yield (Inr row), d')" by simp
  have read: "length (unread u') < length (unread u)"
    if "reader_next u = Some (r, u')" for u r u'
    using that by (auto simp: reader_next_def split: list.splits)
  have names: "length (unread (get_fieldnames u)) \<le> length (unread u)" for u
    by (auto simp: get_fieldnames_def reader_next_def split: list.splits)
  have skip: "length (unread u') \<le> length (unread u)"
    if "skip_blank r u = Some (r', u')" for r u r' u'
    using that
  proof (induction r u rule: skip_blank.induct)
    case (1 r u)
    show ?case
    proof (cases "r = []")
      case False
      with "1.prems" show ?thesis by (simp add: skip_blank.simps [of r u])
    next
      case True
      have "skip_blank r u
          = (case reader_next u of None \<Rightarrow> None | Some (r1, u1) \<Rightarrow> skip_blank r1 u1)"
        using True by (subst skip_blank.simps) simp
      with "1.prems" obtain r1 u1 where nxt: "reader_next u = Some (r1, u1)"
        and rest: "skip_blank r1 u1 = Some (r', u')"
        by (auto split: option.splits)
      from "1.IH" [OF True nxt refl rest] read [OF nxt] show ?thesis by simp
    qed
  qed
  define d1 where "d1 = (if line_num d = 0 then get_fieldnames d else d)"
  have le1: "length (unread d1) \<le> length (unread d)"
    using names [of d] by (simp add: d1_def)
  have unfolded: "dict_next d =
      (case reader_next d1 of
        None \<Rightarrow> (StopIteration, d1)
      | Some (r, d2) \<Rightarrow>
          (case skip_blank r d2 of
             None \<Rightarrow> (StopIteration, d2\<lparr>unread := [], line_num := line_num d2 + length (unread d2)\<rparr>)
           | Some (r', d3) \<Rightarrow>
               (case reader_fieldnames (get_fieldnames d3) of
                  None \<Rightarrow> (Yield (Inl TypeError), get_fieldnames d3)
                | Some ns \<Rightarrow> (Yield (Inr (row_dict ns r')), get_fieldnames d3))))"
    unfolding dict_next_def d1_def Let_def ..
  have "length (unread d') < length (unread d)"
  proof (cases "reader_next d1")
    case None
    with yield unfolded show ?thesis by simp
  next
    case (Some rd)
    obtain r d2 where rd: "rd = (r, d2)" by (cases rd)
    show ?thesis
    proof (cases "skip_blank r d2")
      case None
      with yield unfolded Some rd show ?thesis by simp
    next
      case skipped: (Some rd')
      obtain r' d3 where rd': "rd' = (r', d3)" by (cases rd')
      have "d' = get_fieldnames d3"
        using yield unfolded Some rd skipped rd'
        by (cases "reader_fieldnames (get_fieldnames d3)") simp_all
      with read [of d1 r d2] skip [of r d2 r' d3] names [of d3] le1 Some rd skipped rd'
      show ?thesis by simp
    qed
  qed
  then show ?case by simp
qed

declare column.simps [simp del]

subsection \<open>Reading the table back (lines 107 to 121)\<close>

definition selectspecies :: "string list" where
  "selectspecies = [''OH'', ''CH4'', ''O2'', ''CO2'', ''H2O'', ''CO'']"

text \<open>\<^verbatim>\<open>pop(0)\<close> for its effect on the list; on an empty list it raises \<^verbatim>\<open>IndexError\<close>.\<close>

definition pop0 :: "'a list \<Rightarrow> py_error + 'a list" where
  "pop0 xs = (case xs of [] \<Rightarrow> Inl IndexError | x # rest \<Rightarrow> Inr rest)"

text \<open>Lines 117 to 119, the body of the loop over the selected species.\<close>

definition species_column ::
  "string \<Rightarrow> dictreader \<Rightarrow> py_error + string option list \<times> dictreader" where
  "species_column item data =
     (case column item (seek0 data) of
        (Inl e, data') \<Rightarrow> Inl e
      | (Inr column1, data') \<Rightarrow>
          (case pop0 column1 of
             Inl e \<Rightarrow> Inl e
           | Inr column1' \<Rightarrow> Inr (column1', data')))"

fun species_loop ::
  "string list \<Rightarrow> dictreader \<Rightarrow> string option list list \<Rightarrow> py_error + string option list list" where
  "species_loop [] data selspeX = Inr selspeX"
| "species_loop (item # items) data selspeX =
     (case species_column item data of
        Inl e \<Rightarrow> Inl e
      | Inr (column1, data') \<Rightarrow> species_loop items data' (selspeX @ [column1]))"

text \<open>What the plots are drawn from. A value is \<open>None\<close> where a short row has no field.\<close>

record series =
  column0 :: "string option list"
  columnT :: "string option list"
  selspeX :: "string option list list"

text \<open>
  Lines 109 to 120: one pass for the times, a rewind and a pass for the temperatures, and a
  rewind and a pass for each selected species; every pass but the first drops its first
  element.
\<close>

definition read_back :: "string list list \<Rightarrow> py_error + series" where
  "read_back rows =
     (let data = DictReader rows in
      case column ''time'' data of
        (Inl e, data1) \<Rightarrow> Inl e
      | (Inr time_column, data1) \<Rightarrow>
          (case column ''T'' (seek0 data1) of
             (Inl e, data2) \<Rightarrow> Inl e
           | (Inr T_column, data2) \<Rightarrow>
               (case pop0 T_column of
                  Inl e \<Rightarrow> Inl e
                | Inr T_column' \<Rightarrow>
                    (case species_loop selectspecies data2 [] of
                       Inl e \<Rightarrow> Inl e
                     | Inr columns \<Rightarrow>
                         Inr \<lparr>column0 = time_column, columnT = T_column',
                              selspeX = columns\<rparr>))))"

text \<open>
  A reader that has read the names of the file \<open>names # data\<close>, as the script's reader has
  after its first pass.
\<close>

definition primed :: "string list \<Rightarrow> string list list \<Rightarrow> dictreader \<Rightarrow> bool" where
  "primed names data d =
     (csvfile d = names # data \<and> reader_fieldnames d = Some names \<and> line_num d \<noteq> 0)"

section \<open>Properties of the igniter pulse\<close>

lemma igniter_exponent: "- ((t - t0)\<^sup>2) * 4 * ln 2 / fwhm\<^sup>2 = - (100 * ln 2 * (t - t0)\<^sup>2)"
  by (simp add: fwhm_def power2_eq_square)

lemma igniter_mdot_alt: "igniter_mdot t = exp (- (100 * ln 2 * (t - t0)\<^sup>2))"
  unfolding igniter_mdot_def igniter_exponent by (simp add: amplitude_def)

lemma igniter_half: "exp (- (100 * ln 2 * (1 / 10)\<^sup>2)) = (1 / 2 :: real)"
proof -
  have "100 * ln 2 * (1 / 10)\<^sup>2 = ln (2 :: real)"
    by (simp add: power2_eq_square)
  then have "exp (- (100 * ln 2 * (1 / 10)\<^sup>2)) = exp (- ln (2 :: real))"
    by (rule arg_cong)
  also have "\<dots> = 1 / 2"
    by (simp add: exp_minus inverse_eq_divide)
  finally show ?thesis .
qed

text \<open>
  Claim C2. The igniter flow is the function
  \<open>rate t = A * exp (- (t - t0)\<^sup>2 * 4 * ln 2 / W\<^sup>2)\<close> of the time alone, with \<open>A = 1.0\<close>,
  \<open>W = 0.2\<close> and \<open>t0 = 0.4\<close>. At the centre it equals the amplitude, half a width away on either
  side it equals half the amplitude, and it is symmetric about the centre.
\<close>

theorem igniter_mdot_gaussian:
  "igniter_mdot t = amplitude * exp (- ((t - t0)\<^sup>2) * 4 * ln 2 / fwhm\<^sup>2)
   \<and> amplitude = 1.0 \<and> fwhm = 0.2 \<and> t0 = 0.4
   \<and> igniter_mdot t0 = amplitude
   \<and> igniter_mdot (t0 + fwhm / 2) = amplitude / 2
   \<and> igniter_mdot (t0 - fwhm / 2) = amplitude / 2
   \<and> igniter_mdot (t0 + d) = igniter_mdot (t0 - d)"
proof -
  have centre: "igniter_mdot t0 = amplitude"
    by (simp add: igniter_mdot_alt amplitude_def)
  have up: "igniter_mdot (t0 + fwhm / 2) = amplitude / 2"
    using igniter_half by (simp add: igniter_mdot_alt amplitude_def fwhm_def)
  have down: "igniter_mdot (t0 - fwhm / 2) = amplitude / 2"
    using igniter_half by (simp add: igniter_mdot_alt amplitude_def fwhm_def)
  have sym: "igniter_mdot (t0 + d) = igniter_mdot (t0 - d)"
    by (simp add: igniter_mdot_alt)
  show ?thesis
    using centre up down sym
    by (simp add: igniter_mdot_def amplitude_def fwhm_def t0_def)
qed

lemma igniter_exponent_zero: "(100 * ln 2 * (t - t0)\<^sup>2 = 0) = (t = t0)"
proof -
  have "ln (2 :: real) \<noteq> 0" by simp
  then show ?thesis by simp
qed

lemma pulse_tendsto_at_top:
  fixes a :: real
  shows "((\<lambda>t. exp (- (100 * ln 2 * (t - a)\<^sup>2))) \<longlongrightarrow> 0) at_top"
proof -
  have "LIM t at_top. - a + t :> at_top"
    by (rule filterlim_tendsto_add_at_top [OF tendsto_const filterlim_ident])
  then have "LIM t at_top. (- a + t)\<^sup>2 :> at_top"
    by (rule filterlim_pow_at_top [rotated]) simp
  then have "LIM t at_top. (100 * ln 2) * (- a + t)\<^sup>2 :> at_top"
    by (rule filterlim_tendsto_pos_mult_at_top [OF tendsto_const, rotated]) simp
  then have "LIM t at_top. - (100 * ln 2 * (t - a)\<^sup>2) :> at_bot"
    by (simp add: filterlim_uminus_at_bot)
  then show ?thesis
    by (rule filterlim_compose [OF exp_at_bot])
qed

lemma igniter_tendsto: "(igniter_mdot \<longlongrightarrow> 0) at_infinity"
proof -
  have top: "(igniter_mdot \<longlongrightarrow> 0) at_top"
    using pulse_tendsto_at_top [of t0] by (simp add: igniter_mdot_alt [abs_def])
  have "(- t - t0)\<^sup>2 = (t - (- t0))\<^sup>2" for t :: real
    by (simp add: power2_eq_square algebra_simps)
  then have bot: "(igniter_mdot \<longlongrightarrow> 0) at_bot"
    using pulse_tendsto_at_top [of "- t0"]
    by (simp add: filterlim_at_bot_mirror igniter_mdot_alt [abs_def])
  from top bot show ?thesis
    by (simp add: at_infinity_eq_at_top_bot filterlim_sup)
qed

text \<open>
  Over the reals the formula is positive, at most the amplitude, equal to it at \<open>t0\<close> only,
  and tends to zero as the time goes to infinity in either direction.
\<close>

lemma igniter_formula_bounds:
  "0 < igniter_mdot t \<and> igniter_mdot t \<le> amplitude
   \<and> (igniter_mdot t = amplitude) = (t = t0)
   \<and> igniter_mdot t \<noteq> 0
   \<and> (igniter_mdot \<longlongrightarrow> 0) at_infinity"
proof (intro conjI)
  show pos: "0 < igniter_mdot t"
    by (simp add: igniter_mdot_alt)
  show "igniter_mdot t \<le> amplitude"
    by (simp add: igniter_mdot_alt amplitude_def)
  show "(igniter_mdot t = amplitude) = (t = t0)"
    using igniter_exponent_zero [of t] by (simp add: igniter_mdot_alt amplitude_def)
  show "igniter_mdot t \<noteq> 0"
    using pos by simp
  show "(igniter_mdot \<longlongrightarrow> 0) at_infinity"
    by (rule igniter_tendsto)
qed

subsection \<open>The pulse on doubles\<close>





















































section \<open>Properties of the stepping loop\<close>

subsection \<open>One iteration\<close>

lemma loop_body_ok:
  "v_mdot st \<noteq> 0 \<Longrightarrow>
   loop_body st s =
     Inr (if sample_due s (sim_step st) (combustor_T st)
          then s\<lparr>tnow := sim_step st, Tprev := combustor_T st, tprev := sim_step st,
                 tres := Some (combustor_mass st / v_mdot st), Tnow := Some (combustor_T st),
                 outfile := outfile s @ [record_of st]\<rparr>
          else s\<lparr>tnow := sim_step st,
                 tres := Some (combustor_mass st / v_mdot st), Tnow := Some (combustor_T st)\<rparr>)"
  by (simp add: loop_body_def sample_due_def writerow_def record_of_def Let_def)

lemma loop_body_zero:
  "v_mdot st = 0 \<Longrightarrow> loop_body st s = Inl (ZeroDivisionError, s\<lparr>tnow := sim_step st\<rparr>)"
  by (simp add: loop_body_def)

lemma loop_body_Inl:
  assumes "loop_body st s = Inl (e, s')"
  shows "v_mdot st = 0 \<and> e = ZeroDivisionError \<and> s' = s\<lparr>tnow := sim_step st\<rparr>"
proof (cases "v_mdot st = 0")
  case True
  with assms loop_body_zero [of st s] show ?thesis by simp
next
  case False
  with assms loop_body_ok [of st s] show ?thesis by simp
qed

lemma loop_body_Inr:
  assumes "loop_body st s = Inr s'"
  shows "v_mdot st \<noteq> 0 \<and> tnow s' = sim_step st
     \<and> tres s' = Some (combustor_mass st / v_mdot st) \<and> Tnow s' = Some (combustor_T st)
     \<and> (if sample_due s (sim_step st) (combustor_T st)
        then outfile s' = outfile s @ [record_of st]
             \<and> tprev s' = sim_step st \<and> Tprev s' = combustor_T st
        else outfile s' = outfile s \<and> tprev s' = tprev s \<and> Tprev s' = Tprev s)"
proof (cases "v_mdot st = 0")
  case True
  with assms loop_body_zero [of st s] show ?thesis by simp
next
  case False
  with assms loop_body_ok [of st s] show ?thesis by auto
qed

lemma while_loop_Running_append:
  "while_loop pre s = Running s1 \<Longrightarrow> while_loop (pre @ post) s = while_loop post s1"
proof (induction pre arbitrary: s)
  case Nil
  then show ?case by (cases post) (auto split: if_splits)
next
  case (Cons st pre)
  then show ?case by (auto split: if_splits sum.splits prod.splits)
qed

lemma while_loop_step:
  "tnow s < tfinal \<Longrightarrow> loop_body st s = Inr s' \<Longrightarrow> while_loop (st # rest) s = while_loop rest s'"
  by simp

lemma while_loop_raise:
  "tnow s < tfinal \<Longrightarrow> loop_body st s = Inl (e, s') \<Longrightarrow> while_loop (st # rest) s = Raised e s'"
  by simp

lemma while_loop_done:
  "\<not> tnow s < tfinal \<Longrightarrow> while_loop steps s = Exited s"
  by (cases steps) simp_all

lemma outfile_grows:
  "\<exists>rows. outfile (final (while_loop steps s)) = outfile s @ rows
     \<and> set rows \<subseteq> record_of ` set steps"
proof (induction steps arbitrary: s)
  case Nil
  then show ?case by simp
next
  case (Cons st rest)
  show ?case
  proof (cases "tnow s < tfinal")
    case False
    then show ?thesis by (simp add: while_loop_done)
  next
    case True
    show ?thesis
    proof (cases "loop_body st s")
      case (Inl es)
      obtain e s' where es: "es = (e, s')" by (cases es)
      with Inl have "s' = s\<lparr>tnow := sim_step st\<rparr>" using loop_body_Inl by blast
      with True Inl es show ?thesis by (simp add: while_loop_raise)
    next
      case (Inr s')
      from Cons.IH [of s'] obtain rows where rows:
        "outfile (final (while_loop rest s')) = outfile s' @ rows"
        "set rows \<subseteq> record_of ` set rest"
        by blast
      have run: "while_loop (st # rest) s = while_loop rest s'"
        using True Inr by (rule while_loop_step)
      show ?thesis
      proof (cases "sample_due s (sim_step st) (combustor_T st)")
        case due: True
        with loop_body_Inr [OF Inr] have "outfile s' = outfile s @ [record_of st]" by simp
        with rows run show ?thesis
          by (intro exI [of _ "record_of st # rows"]) auto
      next
        case notdue: False
        with loop_body_Inr [OF Inr] have "outfile s' = outfile s" by simp
        with rows run show ?thesis
          by (intro exI [of _ rows]) auto
      qed
    qed
  qed
qed

lemma row_time_record_of [simp]: "row_time (record_of st) = Some (sim_step st)"
  by (simp add: record_of_def)

lemma length_record_of [simp]: "length (record_of st) = 3 + length (thermo_X st)"
  by (simp add: record_of_def)

lemma outfile_init [simp]:
  "outfile (init species_names T0) = [map PyStr (fieldnames species_names)]"
  by (simp add: init_def writerow_def)

lemma trackers_init [simp]:
  "tnow (init species_names T0) = 0" "tprev (init species_names T0) = 0"
  "Tprev (init species_names T0) = T0"
  by (simp_all add: init_def writerow_def)

lemma row_time_header [simp]: "row_time (map PyStr (fieldnames species_names)) = None"
  by (simp add: fieldnames_def)

lemma rows_ascending:
  "sorted_wrt (<) (map sim_step steps) \<Longrightarrow>
   \<exists>rows ts. outfile (final (while_loop steps s)) = outfile s @ rows
     \<and> map row_time rows = map Some ts \<and> sorted_wrt (<) ts
     \<and> set ts \<subseteq> sim_step ` set steps"
proof (induction steps arbitrary: s)
  case Nil
  then show ?case by simp
next
  case (Cons st rest)
  from Cons.prems have later: "\<forall>p\<in>set rest. sim_step st < sim_step p"
    and sorted_rest: "sorted_wrt (<) (map sim_step rest)"
    by simp_all
  show ?case
  proof (cases "tnow s < tfinal")
    case False
    then show ?thesis by (simp add: while_loop_done)
  next
    case True
    show ?thesis
    proof (cases "loop_body st s")
      case (Inl es)
      obtain e s' where es: "es = (e, s')" by (cases es)
      with Inl have "s' = s\<lparr>tnow := sim_step st\<rparr>" using loop_body_Inl by blast
      with True Inl es show ?thesis by (simp add: while_loop_raise)
    next
      case (Inr s')
      from Cons.IH [OF sorted_rest, of s'] obtain rows ts where rows:
        "outfile (final (while_loop rest s')) = outfile s' @ rows"
        "map row_time rows = map Some ts" "sorted_wrt (<) ts"
        "set ts \<subseteq> sim_step ` set rest"
        by blast
      have run: "while_loop (st # rest) s = while_loop rest s'"
        using True Inr by (rule while_loop_step)
      show ?thesis
      proof (cases "sample_due s (sim_step st) (combustor_T st)")
        case due: True
        with loop_body_Inr [OF Inr] have "outfile s' = outfile s @ [record_of st]" by simp
        moreover have "sorted_wrt (<) (sim_step st # ts)"
          using rows(3,4) later by auto
        ultimately show ?thesis using rows run
          by (intro exI [of _ "record_of st # rows"] exI [of _ "sim_step st # ts"]) auto
      next
        case notdue: False
        with loop_body_Inr [OF Inr] have "outfile s' = outfile s" by simp
        with rows run show ?thesis
          by (intro exI [of _ rows] exI [of _ ts]) auto
      qed
    qed
  qed
qed

lemma while_loop_running:
  assumes "\<forall>p\<in>set pre. sim_step p < tfinal \<and> v_mdot p \<noteq> 0" and "tnow s < tfinal"
  shows "\<exists>s1. while_loop pre s = Running s1 \<and> tnow s1 < tfinal"
  using assms
proof (induction pre arbitrary: s)
  case Nil
  then show ?case by simp
next
  case (Cons p pre)
  from Cons.prems have ok: "v_mdot p \<noteq> 0" and early: "sim_step p < tfinal" by simp_all
  obtain s' where body: "loop_body p s = Inr s'"
    using loop_body_ok [OF ok] by blast
  with loop_body_Inr [OF body] early have "tnow s' < tfinal" by simp
  with Cons.IH [of s'] Cons.prems obtain s1 where
    "while_loop pre s' = Running s1" "tnow s1 < tfinal"
    by auto
  with Cons.prems(2) body show ?case
    by (simp add: while_loop_step)
qed

lemma while_loop_Running_tnow:
  "while_loop steps s = Running s1 \<Longrightarrow> tnow s1 < tfinal"
proof (induction steps arbitrary: s)
  case Nil
  then show ?case by (auto split: if_splits)
next
  case (Cons st rest)
  then show ?case by (auto split: if_splits sum.splits prod.splits)
qed

lemma while_loop_exit:
  assumes run: "while_loop pre s = Running s1"
    and body: "loop_body st s1 = Inr s'"
    and late: "tfinal \<le> sim_step st"
  shows "while_loop (pre @ st # post) s = Exited s'"
proof -
  have "tnow s1 < tfinal"
    using run by (rule while_loop_Running_tnow)
  moreover have "\<not> tnow s' < tfinal"
    using loop_body_Inr [OF body] late by simp
  ultimately have "while_loop (st # post) s1 = Exited s'"
    using body by (simp add: while_loop_step while_loop_done)
  with while_loop_Running_append [OF run, of "st # post"] show ?thesis by simp
qed

subsection \<open>The sampling test\<close>

text \<open>
  Claim C1. After a step to time \<open>t_now\<close> with temperature \<open>T_now\<close> (the iteration reaches the
  test, so its residence-time division has succeeded), the record
  \<open>[t_now, T_now, tres, mole fractions...]\<close> is appended and both trackers are set to
  \<open>(t_now, T_now)\<close> if the temperature moved by more than 1.0 or the time by more than 0.02
  since the last record; otherwise nothing is written and the trackers keep their values.
  A row is written exactly when the test holds.
\<close>

theorem sampling_policy:
  assumes "v_mdot st \<noteq> 0"
  shows "\<exists>s'. loop_body st s = Inr s' \<and> tnow s' = sim_step st \<and>
     ((\<bar>combustor_T st - Tprev s\<bar> > 1.0 \<or> sim_step st - tprev s > 0.02) \<longrightarrow>
        outfile s' = outfile s @
          [[PyFloat (sim_step st), PyFloat (combustor_T st),
            PyFloat (combustor_mass st / v_mdot st)] @ map PyFloat (thermo_X st)]
        \<and> tprev s' = sim_step st \<and> Tprev s' = combustor_T st) \<and>
     (\<not> (\<bar>combustor_T st - Tprev s\<bar> > 1.0 \<or> sim_step st - tprev s > 0.02) \<longrightarrow>
        outfile s' = outfile s \<and> tprev s' = tprev s \<and> Tprev s' = Tprev s) \<and>
     ((outfile s' \<noteq> outfile s)
        = (\<bar>combustor_T st - Tprev s\<bar> > 1.0 \<or> sim_step st - tprev s > 0.02))"
  using assms by (simp add: loop_body_ok sample_due_def record_of_def)

theorem sampling_policy_witness:
  "v_mdot \<lparr>sim_step = 3 / 100, combustor_mass = 3, v_mdot = 2, combustor_T = 300,
           thermo_X = [1 / 4, 3 / 4]\<rparr> \<noteq> 0
   \<and> (3 / 100 :: real) - 0 > 0.02
   \<and> (\<exists>s'. loop_body \<lparr>sim_step = 3 / 100, combustor_mass = 3, v_mdot = 2, combustor_T = 300,
                thermo_X = [1 / 4, 3 / 4]\<rparr> (init [''H2'', ''O2''] 300) = Inr s'
          \<and> outfile s' = [map PyStr [''time'', ''T'', ''tres'', ''H2'', ''O2''],
               [PyFloat (3 / 100), PyFloat 300, PyFloat (3 / 2), PyFloat (1 / 4), PyFloat (3 / 4)]]
          \<and> tprev s' = 3 / 100 \<and> Tprev s' = 300)
   \<and> v_mdot \<lparr>sim_step = 1 / 100, combustor_mass = 3, v_mdot = 2, combustor_T = 301,
           thermo_X = [1 / 4, 3 / 4]\<rparr> \<noteq> 0
   \<and> \<bar>301 - 300\<bar> \<le> (1 :: real) \<and> (1 / 100 :: real) - 0 \<le> 0.02
   \<and> (\<exists>s'. loop_body \<lparr>sim_step = 1 / 100, combustor_mass = 3, v_mdot = 2, combustor_T = 301,
                thermo_X = [1 / 4, 3 / 4]\<rparr> (init [''H2'', ''O2''] 300) = Inr s'
          \<and> outfile s' = [map PyStr [''time'', ''T'', ''tres'', ''H2'', ''O2'']]
          \<and> tprev s' = 0 \<and> Tprev s' = 300)"
  using sampling_policy [of "\<lparr>sim_step = 3 / 100, combustor_mass = 3, v_mdot = 2,
      combustor_T = 300, thermo_X = [1 / 4, 3 / 4]\<rparr>" "init [''H2'', ''O2''] 300"]
    sampling_policy [of "\<lparr>sim_step = 1 / 100, combustor_mass = 3, v_mdot = 2,
      combustor_T = 301, thermo_X = [1 / 4, 3 / 4]\<rparr>" "init [''H2'', ''O2''] 300"]
  by (auto simp add: fieldnames_def)

subsection \<open>The shape of the table\<close>

text \<open>
  Claim C4. In every run (finished, failed or still stepping) the first row of the table is
  the header \<open>time, T, tres\<close> followed by the species names in the model's order, and
  every later row has as many columns as the header, \<open>3 + N\<close> for \<open>N\<close> species. The
  library's mole-fraction vector has one entry per species; that is the hypothesis.
\<close>

theorem table_shape:
  assumes "\<forall>st\<in>set steps. length (thermo_X st) = length species_names"
  shows "\<exists>data. outfile (final (write_phase species_names T0 steps))
             = map PyStr ([''time'', ''T'', ''tres''] @ species_names) # data
           \<and> length (map PyStr ([''time'', ''T'', ''tres''] @ species_names)) = 3 + length species_names
           \<and> (\<forall>row\<in>set data. length row = 3 + length species_names)"
proof -
  from outfile_grows [of steps "init species_names T0"] obtain rows where
    rows: "outfile (final (while_loop steps (init species_names T0))) = outfile (init species_names T0) @ rows"
      "set rows \<subseteq> record_of ` set steps"
    by blast
  have "\<forall>row\<in>set rows. length row = 3 + length species_names"
    using rows(2) assms by auto
  with rows(1) show ?thesis
    by (intro exI [of _ rows]) (simp add: write_phase_def fieldnames_def)
qed

theorem table_shape_witness:
  "length (thermo_X \<lparr>sim_step = 3 / 100, combustor_mass = 3, v_mdot = 2, combustor_T = 300,
                    thermo_X = [1 / 4, 3 / 4]\<rparr>) = length [''H2'', ''O2'']
   \<and> outfile (final (write_phase [''H2'', ''O2''] 300
        [\<lparr>sim_step = 3 / 100, combustor_mass = 3, v_mdot = 2, combustor_T = 300,
          thermo_X = [1 / 4, 3 / 4]\<rparr>]))
      = [map PyStr [''time'', ''T'', ''tres'', ''H2'', ''O2''],
         [PyFloat (3 / 100), PyFloat 300, PyFloat (3 / 2), PyFloat (1 / 4), PyFloat (3 / 4)]]"
  using table_shape [of "[\<lparr>sim_step = 3 / 100, combustor_mass = 3, v_mdot = 2,
      combustor_T = 300, thermo_X = [1 / 4, 3 / 4]\<rparr>]" "[''H2'', ''O2'']" 300]
  by (simp add: write_phase_def tfinal_def loop_body_ok sample_due_def record_of_def)

subsection \<open>Ascending times\<close>

text \<open>
  Claim C7. When the times returned by the stepper are strictly increasing, every data row
  carries a time and each is strictly greater than the time of the row before it.
\<close>

theorem written_times_ascending:
  assumes "sorted_wrt (<) (map sim_step steps)"
  shows "\<exists>ts. map row_time (tl (outfile (final (write_phase species_names T0 steps)))) = map Some ts
           \<and> sorted_wrt (<) ts"
proof -
  from rows_ascending [OF assms, of "init species_names T0"] obtain rows ts where
    "outfile (final (while_loop steps (init species_names T0))) = outfile (init species_names T0) @ rows"
    "map row_time rows = map Some ts" "sorted_wrt (<) ts"
    by blast
  then show ?thesis
    by (intro exI [of _ ts]) (simp add: write_phase_def)
qed

theorem written_times_ascending_witness:
  "sorted_wrt (<) (map sim_step
      [\<lparr>sim_step = 3 / 100, combustor_mass = 3, v_mdot = 2, combustor_T = 300, thermo_X = []\<rparr>,
       \<lparr>sim_step = 4 / 100, combustor_mass = 3, v_mdot = 2, combustor_T = 302, thermo_X = []\<rparr>])
   \<and> map row_time (tl (outfile (final (write_phase [] 300
      [\<lparr>sim_step = 3 / 100, combustor_mass = 3, v_mdot = 2, combustor_T = 300, thermo_X = []\<rparr>,
       \<lparr>sim_step = 4 / 100, combustor_mass = 3, v_mdot = 2, combustor_T = 302, thermo_X = []\<rparr>]))))
      = [Some (3 / 100), Some (4 / 100)]"
  using written_times_ascending [of
      "[\<lparr>sim_step = 3 / 100, combustor_mass = 3, v_mdot = 2, combustor_T = 300, thermo_X = []\<rparr>,
        \<lparr>sim_step = 4 / 100, combustor_mass = 3, v_mdot = 2, combustor_T = 302, thermo_X = []\<rparr>]"
      "[]" 300]
  by (simp add: write_phase_def tfinal_def loop_body_ok sample_due_def record_of_def)

subsection \<open>Leaving the loop\<close>

lemma first_late:
  assumes "\<exists>st\<in>set steps. tfinal \<le> sim_step st"
  shows "steps = takeWhile (\<lambda>p. sim_step p < tfinal) steps
            @ hd (dropWhile (\<lambda>p. sim_step p < tfinal) steps)
            # tl (dropWhile (\<lambda>p. sim_step p < tfinal) steps)
         \<and> tfinal \<le> sim_step (hd (dropWhile (\<lambda>p. sim_step p < tfinal) steps))"
proof -
  have ne: "dropWhile (\<lambda>p. sim_step p < tfinal) steps \<noteq> []"
    using assms by (force simp: not_less)
  then have "\<not> sim_step (hd (dropWhile (\<lambda>p. sim_step p < tfinal) steps)) < tfinal"
    by (rule hd_dropWhile)
  with ne show ?thesis by simp
qed

lemma while_loop_stops:
  assumes "\<exists>st\<in>set steps. tfinal \<le> sim_step st"
  shows "while_loop steps s \<noteq> Running s'"
  using assms
proof (induction steps arbitrary: s)
  case Nil
  then show ?case by simp
next
  case (Cons p rest)
  show ?case
  proof (cases "tnow s < tfinal")
    case False
    then show ?thesis by (simp add: while_loop_done)
  next
    case True
    show ?thesis
    proof (cases "loop_body p s")
      case (Inl es)
      with True show ?thesis by (cases es) simp
    next
      case (Inr u)
      show ?thesis
      proof (cases "tfinal \<le> sim_step p")
        case late: True
        with loop_body_Inr [OF Inr] have "\<not> tnow u < tfinal" by simp
        with True Inr show ?thesis by (simp add: while_loop_done)
      next
        case False
        with Cons.prems have "\<exists>st\<in>set rest. tfinal \<le> sim_step st" by auto
        from Cons.IH [OF this, of u] True Inr show ?thesis by simp
      qed
    qed
  qed
qed

lemma exit_at_first_late:
  assumes early: "\<forall>p\<in>set pre. sim_step p < tfinal \<and> v_mdot p \<noteq> 0"
    and late: "tfinal \<le> sim_step st" and ok: "v_mdot st \<noteq> 0"
  shows "\<exists>s1 s'. write_phase species_names T0 pre = Running s1
           \<and> write_phase species_names T0 (pre @ [st]) = Exited s'
           \<and> write_phase species_names T0 (pre @ st # post) = Exited s'
           \<and> tnow s' = sim_step st
           \<and> (if sample_due s1 (tnow s') (combustor_T st)
              then row_time (last (outfile s')) = Some (tnow s')
              else \<forall>row\<in>set (outfile s'). \<forall>t. row_time row = Some t \<longrightarrow> t < tfinal)"
proof -
  define s where "s = init species_names T0"
  have "tnow s < tfinal"
    by (simp add: s_def tfinal_def)
  with early obtain s1 where run: "while_loop pre s = Running s1"
    using while_loop_running by blast
  from ok obtain s' where body: "loop_body st s1 = Inr s'"
    using loop_body_ok by blast
  note facts = loop_body_Inr [OF body]
  have exit: "while_loop (pre @ st # rest) s = Exited s'" for rest
    using run body late by (rule while_loop_exit)
  have now: "tnow s' = sim_step st"
    using facts by simp
  have final_row: "if sample_due s1 (tnow s') (combustor_T st)
     then row_time (last (outfile s')) = Some (tnow s')
     else \<forall>row\<in>set (outfile s'). \<forall>t. row_time row = Some t \<longrightarrow> t < tfinal"
  proof (cases "sample_due s1 (sim_step st) (combustor_T st)")
    case True
    with facts show ?thesis by simp
  next
    case False
    with facts have same: "outfile s' = outfile s1" by simp
    from outfile_grows [of pre s] run obtain rows where
      rows: "outfile s1 = outfile s @ rows" "set rows \<subseteq> record_of ` set pre"
      by auto
    have "\<forall>row\<in>set rows. \<forall>t. row_time row = Some t \<longrightarrow> t < tfinal"
    proof (intro ballI allI impI)
      fix row t
      assume "row \<in> set rows" and t: "row_time row = Some t"
      with rows(2) obtain p where "p \<in> set pre" "row = record_of p" by auto
      with t early show "t < tfinal" by auto
    qed
    moreover have "outfile s' = map PyStr (fieldnames species_names) # rows"
      using rows(1) same by (simp add: s_def)
    ultimately have "\<forall>row\<in>set (outfile s'). \<forall>t. row_time row = Some t \<longrightarrow> t < tfinal"
      by simp
    with False now show ?thesis by simp
  qed
  have before: "write_phase species_names T0 pre = Running s1"
    using run by (simp add: write_phase_def s_def)
  have at: "write_phase species_names T0 (pre @ [st]) = Exited s'"
    using exit [of "[]"] by (simp add: write_phase_def s_def)
  have after: "write_phase species_names T0 (pre @ st # post) = Exited s'"
    using exit [of post] by (simp add: write_phase_def s_def)
  show ?thesis
    by (rule exI [of _ s1], rule exI [of _ s'], intro conjI)
      (fact before at after now final_row)+
qed

lemma sample_due_cong:
  "tprev a = tprev b \<Longrightarrow> Tprev a = Tprev b \<Longrightarrow> sample_due a t T = sample_due b t T"
  by (simp add: sample_due_def)

lemma while_loop_skipping:
  assumes "\<forall>p\<in>set pre. sim_step p < tfinal \<and> v_mdot p \<noteq> 0
              \<and> \<not> sample_due s (sim_step p) (combustor_T p)"
    and "tnow s < tfinal"
  shows "\<exists>s1. while_loop pre s = Running s1 \<and> outfile s1 = outfile s
           \<and> tprev s1 = tprev s \<and> Tprev s1 = Tprev s"
  using assms
proof (induction pre arbitrary: s)
  case Nil
  then show ?case by simp
next
  case (Cons p pre)
  from Cons.prems have ok: "v_mdot p \<noteq> 0" and early: "sim_step p < tfinal"
    and skip: "\<not> sample_due s (sim_step p) (combustor_T p)" by simp_all
  obtain s' where body: "loop_body p s = Inr s'"
    using loop_body_ok [OF ok] by blast
  from loop_body_Inr [OF body] skip early
  have same: "outfile s' = outfile s" "tprev s' = tprev s" "Tprev s' = Tprev s"
    and now: "tnow s' < tfinal"
    by simp_all
  have "\<forall>q\<in>set pre. sim_step q < tfinal \<and> v_mdot q \<noteq> 0
            \<and> \<not> sample_due s' (sim_step q) (combustor_T q)"
    using Cons.prems(1) sample_due_cong [OF same(2,3)] by simp
  from Cons.IH [OF this now] obtain s1 where
    "while_loop pre s' = Running s1" "outfile s1 = outfile s'"
    "tprev s1 = tprev s'" "Tprev s1 = Tprev s'"
    by blast
  with same Cons.prems(2) body show ?case
    by (simp add: while_loop_step)
qed

text \<open>
  Claim C6. When the valve flow is not zero the division succeeds and \<^verbatim>\<open>tres\<close> is the quotient
  of reactor mass and valve flow. When it is zero the iteration raises
  \<^verbatim>\<open>ZeroDivisionError\<close> before anything else happens; nothing handles it, so a run that has
  come this far (\<open>Running s\<close> after the steps \<open>pre\<close>) ends there whatever the library would
  have reported next, and the table holds exactly the rows written before.
\<close>

theorem residence_time:
  "(v_mdot st \<noteq> 0 \<longrightarrow>
      (\<exists>s'. loop_body st s = Inr s' \<and> tres s' = Some (combustor_mass st / v_mdot st)))
   \<and> (v_mdot st = 0 \<longrightarrow>
      loop_body st s = Inl (ZeroDivisionError, s\<lparr>tnow := sim_step st\<rparr>)
      \<and> (while_loop pre s0 = Running s \<longrightarrow>
            while_loop (pre @ st # post) s0 = Raised ZeroDivisionError (s\<lparr>tnow := sim_step st\<rparr>)
            \<and> outfile (final (while_loop (pre @ st # post) s0)) = outfile s))"
proof (intro conjI impI)
  assume "v_mdot st \<noteq> 0"
  then show "\<exists>s'. loop_body st s = Inr s' \<and> tres s' = Some (combustor_mass st / v_mdot st)"
    by (simp add: loop_body_ok)
next
  assume zero: "v_mdot st = 0"
  then show body: "loop_body st s = Inl (ZeroDivisionError, s\<lparr>tnow := sim_step st\<rparr>)"
    by (rule loop_body_zero)
  assume run: "while_loop pre s0 = Running s"
  then have "tnow s < tfinal" by (rule while_loop_Running_tnow)
  then have "while_loop (st # post) s = Raised ZeroDivisionError (s\<lparr>tnow := sim_step st\<rparr>)"
    using body by (rule while_loop_raise)
  with while_loop_Running_append [OF run, of "st # post"]
  show raised: "while_loop (pre @ st # post) s0 = Raised ZeroDivisionError (s\<lparr>tnow := sim_step st\<rparr>)"
    by simp
  show "outfile (final (while_loop (pre @ st # post) s0)) = outfile s"
    by (simp add: raised)
qed

theorem residence_time_witness:
  "v_mdot \<lparr>sim_step = 3 / 100, combustor_mass = 3, v_mdot = 2, combustor_T = 300, thermo_X = []\<rparr> \<noteq> 0
   \<and> (\<exists>s'. loop_body \<lparr>sim_step = 3 / 100, combustor_mass = 3, v_mdot = 2, combustor_T = 300,
                thermo_X = []\<rparr> (init [] 300) = Inr s' \<and> tres s' = Some (3 / 2))
   \<and> v_mdot \<lparr>sim_step = 3 / 100, combustor_mass = 3, v_mdot = 0, combustor_T = 300, thermo_X = []\<rparr> = 0
   \<and> while_loop [] (init [] 300) = Running (init [] 300)
   \<and> while_loop ([] @ \<lparr>sim_step = 3 / 100, combustor_mass = 3, v_mdot = 0, combustor_T = 300,
          thermo_X = []\<rparr> # []) (init [] 300)
       = Raised ZeroDivisionError ((init [] 300)\<lparr>tnow := 3 / 100\<rparr>)"
  using residence_time [of "\<lparr>sim_step = 3 / 100, combustor_mass = 3, v_mdot = 2,
      combustor_T = 300, thermo_X = []\<rparr>" "init [] 300" "[]" "init [] 300" "[]"]
    residence_time [of "\<lparr>sim_step = 3 / 100, combustor_mass = 3, v_mdot = 0,
      combustor_T = 300, thermo_X = []\<rparr>" "init [] 300" "[]" "init [] 300" "[]"]
  by (simp add: tfinal_def)

text \<open>
  Claim C3, as the code has it. When some returned time reaches \<open>tfinal = 6.0\<close> the loop does
  not go on: it has ended at that step at the latest. When no division fails it ends exactly
  at the first such step, with \<open>tnow \<ge> 6.0\<close>. The last step is written only if it passes the
  sampling test, and then the last row carries its time; otherwise every row in the table
  has a time below 6.0.
\<close>

theorem loop_exit:
  assumes "\<exists>st\<in>set steps. tfinal \<le> sim_step st"
  shows "(\<forall>s'. write_phase species_names T0 steps \<noteq> Running s')
     \<and> ((\<forall>p\<in>set steps. v_mdot p \<noteq> 0) \<longrightarrow>
          (\<exists>s1 s'. write_phase species_names T0 (takeWhile (\<lambda>p. sim_step p < tfinal) steps)
                      = Running s1
             \<and> write_phase species_names T0 (takeWhile (\<lambda>p. sim_step p < tfinal) steps
                      @ [hd (dropWhile (\<lambda>p. sim_step p < tfinal) steps)]) = Exited s'
             \<and> write_phase species_names T0 steps = Exited s'
             \<and> tnow s' = sim_step (hd (dropWhile (\<lambda>p. sim_step p < tfinal) steps))
             \<and> tfinal \<le> tnow s'
             \<and> (if sample_due s1 (tnow s') (combustor_T (hd (dropWhile (\<lambda>p. sim_step p < tfinal) steps)))
                then row_time (last (outfile s')) = Some (tnow s')
                else \<forall>row\<in>set (outfile s'). \<forall>t. row_time row = Some t \<longrightarrow> t < tfinal)))"
proof (intro conjI allI impI)
  fix s'
  show "write_phase species_names T0 steps \<noteq> Running s'"
    unfolding write_phase_def using assms by (rule while_loop_stops)
next
  let ?pre = "takeWhile (\<lambda>p. sim_step p < tfinal) steps"
  let ?st = "hd (dropWhile (\<lambda>p. sim_step p < tfinal) steps)"
  let ?post = "tl (dropWhile (\<lambda>p. sim_step p < tfinal) steps)"
  assume ok: "\<forall>p\<in>set steps. v_mdot p \<noteq> 0"
  from first_late [OF assms] have steps: "?pre @ ?st # ?post = steps" and late: "tfinal \<le> sim_step ?st"
    by simp_all
  have "?st \<in> set steps"
    by (subst (2) steps [symmetric]) simp
  with ok have ok_st: "v_mdot ?st \<noteq> 0" by blast
  have early: "\<forall>p\<in>set ?pre. sim_step p < tfinal \<and> v_mdot p \<noteq> 0"
    using ok by (auto dest: set_takeWhileD)
  from exit_at_first_late [OF early late ok_st, of species_names T0 ?post]
  obtain s1 s' where before: "write_phase species_names T0 ?pre = Running s1"
    and at: "write_phase species_names T0 (?pre @ [?st]) = Exited s'"
    and after: "write_phase species_names T0 (?pre @ ?st # ?post) = Exited s'"
    and now: "tnow s' = sim_step ?st"
    and final_row: "if sample_due s1 (tnow s') (combustor_T ?st)
                then row_time (last (outfile s')) = Some (tnow s')
                else \<forall>row\<in>set (outfile s'). \<forall>t. row_time row = Some t \<longrightarrow> t < tfinal"
    by blast
  have whole: "write_phase species_names T0 steps = Exited s'"
    using after unfolding steps .
  have reached: "tfinal \<le> tnow s'"
    using now late by simp
  show "\<exists>s1 s'. write_phase species_names T0 ?pre = Running s1
             \<and> write_phase species_names T0 (?pre @ [?st]) = Exited s'
             \<and> write_phase species_names T0 steps = Exited s'
             \<and> tnow s' = sim_step ?st
             \<and> tfinal \<le> tnow s'
             \<and> (if sample_due s1 (tnow s') (combustor_T ?st)
                then row_time (last (outfile s')) = Some (tnow s')
                else \<forall>row\<in>set (outfile s'). \<forall>t. row_time row = Some t \<longrightarrow> t < tfinal)"
    by (rule exI [of _ s1], rule exI [of _ s'], intro conjI)
      (fact before at whole now reached final_row)+
qed

theorem loop_exit_witness:
  "tfinal \<le> sim_step \<lparr>sim_step = 6, combustor_mass = 3, v_mdot = 2, combustor_T = 300, thermo_X = []\<rparr>
   \<and> v_mdot \<lparr>sim_step = 599 / 100, combustor_mass = 3, v_mdot = 2, combustor_T = 300, thermo_X = []\<rparr> \<noteq> 0
   \<and> v_mdot \<lparr>sim_step = 6, combustor_mass = 3, v_mdot = 2, combustor_T = 300, thermo_X = []\<rparr> \<noteq> 0
   \<and> (\<exists>s'. write_phase [] 300
          [\<lparr>sim_step = 599 / 100, combustor_mass = 3, v_mdot = 2, combustor_T = 300, thermo_X = []\<rparr>,
           \<lparr>sim_step = 6, combustor_mass = 3, v_mdot = 2, combustor_T = 300, thermo_X = []\<rparr>]
         = Exited s' \<and> tnow s' = 6 \<and> tfinal \<le> tnow s')"
  using loop_exit [of
          "[\<lparr>sim_step = 599 / 100, combustor_mass = 3, v_mdot = 2, combustor_T = 300, thermo_X = []\<rparr>,
           \<lparr>sim_step = 6, combustor_mass = 3, v_mdot = 2, combustor_T = 300, thermo_X = []\<rparr>]"
          "[]" 300]
  by (auto simp add: tfinal_def)

text \<open>
  The claim as stated fails: after the steps to 5.99 and 6.0 at constant temperature the loop
  has exited, and the last row is the one of 5.99.
\<close>

theorem last_record_counterexample:
  "tfinal \<le> sim_step \<lparr>sim_step = 6, combustor_mass = 3, v_mdot = 2, combustor_T = 300, thermo_X = []\<rparr>
   \<and> write_phase [] 300
          [\<lparr>sim_step = 599 / 100, combustor_mass = 3, v_mdot = 2, combustor_T = 300, thermo_X = []\<rparr>,
           \<lparr>sim_step = 6, combustor_mass = 3, v_mdot = 2, combustor_T = 300, thermo_X = []\<rparr>]
       = Exited \<lparr>tnow = 6, Tprev = 300, tprev = 599 / 100, tres = Some (3 / 2), Tnow = Some 300,
           outfile = [[PyStr ''time'', PyStr ''T'', PyStr ''tres''],
                      [PyFloat (599 / 100), PyFloat 300, PyFloat (3 / 2)]]\<rparr>
   \<and> row_time (last [[PyStr ''time'', PyStr ''T'', PyStr ''tres''],
                      [PyFloat (599 / 100), PyFloat 300, PyFloat (3 / 2)]]) = Some (599 / 100)
   \<and> \<not> tfinal \<le> 599 / 100"
  by (simp add: write_phase_def tfinal_def loop_body_ok sample_due_def record_of_def
      init_def writerow_def fieldnames_def)

subsection \<open>The first record\<close>

text \<open>
  Claim C5, as the code has it. Before the first step \<^verbatim>\<open>tnow\<close> and both trackers hold the
  state at time 0 and the table holds the header only: no row is written for time 0. That
  state is the reference of the first comparisons, and the first data row is the first step
  that passes the sampling test against it.
\<close>

theorem initial_reference:
  "tnow (init species_names T0) = 0 \<and> tprev (init species_names T0) = 0
   \<and> Tprev (init species_names T0) = T0
   \<and> outfile (init species_names T0) = [map PyStr ([''time'', ''T'', ''tres''] @ species_names)]
   \<and> ((\<forall>p\<in>set pre. v_mdot p \<noteq> 0
            \<and> \<not> (\<bar>combustor_T p - T0\<bar> > 1.0 \<or> sim_step p - 0 > 0.02))
        \<and> v_mdot st \<noteq> 0 \<and> (\<bar>combustor_T st - T0\<bar> > 1.0 \<or> sim_step st - 0 > 0.02)
       \<longrightarrow> (\<exists>rows. outfile (final (write_phase species_names T0 (pre @ st # post)))
              = map PyStr ([''time'', ''T'', ''tres''] @ species_names) # record_of st # rows))"
proof (intro conjI impI)
  define s where "s = init species_names T0"
  assume hyp: "(\<forall>p\<in>set pre. v_mdot p \<noteq> 0
            \<and> \<not> (\<bar>combustor_T p - T0\<bar> > 1.0 \<or> sim_step p - 0 > 0.02))
        \<and> v_mdot st \<noteq> 0 \<and> (\<bar>combustor_T st - T0\<bar> > 1.0 \<or> sim_step st - 0 > 0.02)"
  have start: "tnow s < tfinal"
    by (simp add: s_def tfinal_def)
  have "\<forall>p\<in>set pre. sim_step p < tfinal \<and> v_mdot p \<noteq> 0
          \<and> \<not> sample_due s (sim_step p) (combustor_T p)"
    using hyp by (auto simp: s_def sample_due_def tfinal_def)
  from while_loop_skipping [OF this start] obtain s1 where
    run: "while_loop pre s = Running s1" and same: "outfile s1 = outfile s"
      "tprev s1 = tprev s" "Tprev s1 = Tprev s"
    by blast
  have now: "tnow s1 < tfinal"
    using run by (rule while_loop_Running_tnow)
  from hyp obtain s' where body: "loop_body st s1 = Inr s'"
    using loop_body_ok by blast
  have "sample_due s1 (sim_step st) (combustor_T st)"
    using hyp same by (simp add: sample_due_def s_def)
  with loop_body_Inr [OF body] have written: "outfile s' = outfile s1 @ [record_of st]"
    by simp
  from outfile_grows [of post s'] obtain rows where
    rows: "outfile (final (while_loop post s')) = outfile s' @ rows"
    by blast
  have "while_loop (pre @ st # post) s = while_loop post s'"
    using while_loop_Running_append [OF run, of "st # post"] now body
    by (simp add: while_loop_step)
  with rows written same
  have "outfile (final (write_phase species_names T0 (pre @ st # post)))
          = map PyStr ([''time'', ''T'', ''tres''] @ species_names) # record_of st # rows"
    by (simp add: write_phase_def s_def fieldnames_def)
  then show "\<exists>rows. outfile (final (write_phase species_names T0 (pre @ st # post)))
              = map PyStr ([''time'', ''T'', ''tres''] @ species_names) # record_of st # rows"
    by (rule exI)
qed (simp_all add: fieldnames_def)

theorem initial_reference_witness:
  "v_mdot \<lparr>sim_step = 1 / 100, combustor_mass = 3, v_mdot = 2, combustor_T = 300, thermo_X = []\<rparr> \<noteq> 0
   \<and> \<bar>300 - 300\<bar> \<le> (1 :: real) \<and> (1 / 100 :: real) - 0 \<le> 2 / 100
   \<and> v_mdot \<lparr>sim_step = 3 / 100, combustor_mass = 3, v_mdot = 2, combustor_T = 300, thermo_X = []\<rparr> \<noteq> 0
   \<and> (3 / 100 :: real) - 0 > 2 / 100
   \<and> (\<exists>rows. outfile (final (write_phase [] 300
         ([\<lparr>sim_step = 1 / 100, combustor_mass = 3, v_mdot = 2, combustor_T = 300, thermo_X = []\<rparr>]
           @ \<lparr>sim_step = 3 / 100, combustor_mass = 3, v_mdot = 2, combustor_T = 300, thermo_X = []\<rparr>
           # [])))
        = map PyStr ([''time'', ''T'', ''tres''] @ [])
          # [PyFloat (3 / 100), PyFloat 300, PyFloat (3 / 2)] # rows)"
  using initial_reference [of "[]" 300
      "[\<lparr>sim_step = 1 / 100, combustor_mass = 3, v_mdot = 2, combustor_T = 300, thermo_X = []\<rparr>]"
      "\<lparr>sim_step = 3 / 100, combustor_mass = 3, v_mdot = 2, combustor_T = 300, thermo_X = []\<rparr>"
      "[]"]
  by (simp add: record_of_def)

text \<open>
  The claim as stated fails: with a first step to 0.03 at 305 K from 300 K, the first data
  row is that step, not the state at time 0.
\<close>

theorem first_record_counterexample:
  "tl (outfile (final (write_phase [] 300
      [\<lparr>sim_step = 3 / 100, combustor_mass = 3, v_mdot = 2, combustor_T = 305, thermo_X = []\<rparr>])))
     = [[PyFloat (3 / 100), PyFloat 305, PyFloat (3 / 2)]]
   \<and> row_time [PyFloat (3 / 100), PyFloat 305, PyFloat (3 / 2)] \<noteq> Some 0
   \<and> (305 :: real) \<noteq> 300"
  by (simp add: write_phase_def tfinal_def loop_body_ok sample_due_def record_of_def)

section \<open>Properties of the read-back\<close>

lemma map_of_rev_zip_self:
  "key \<in> set names \<Longrightarrow> map_of (rev (zip names (map f names))) key = Some (f key)"
proof (induction names rule: rev_induct)
  case Nil
  then show ?case by simp
next
  case (snoc x xs)
  then show ?case by (cases "key = x") auto
qed

lemma row_dict_self:
  "key \<in> set names \<Longrightarrow> row_dict names names key = Some (Some key)"
  by (simp add: row_dict_def map_of_rev_zip_self)

lemma skip_blank_nonblank: "row \<noteq> [] \<Longrightarrow> skip_blank row d = Some (row, d)"
  by (subst skip_blank.simps) simp

lemma get_fieldnames_known:
  "reader_fieldnames d = Some names \<Longrightarrow> get_fieldnames d = d"
  by (simp add: get_fieldnames_def)

lemma dict_next_end:
  assumes "line_num d \<noteq> 0" and "unread d = []"
  shows "dict_next d = (StopIteration, d)"
  using assms by (simp add: dict_next_def reader_next_def)

lemma dict_next_row:
  assumes "reader_fieldnames d = Some names" and "line_num d \<noteq> 0"
    and "unread d = row # rest" and "row \<noteq> []"
  shows "dict_next d
    = (Yield (Inr (row_dict names row)), d\<lparr>unread := rest, line_num := Suc (line_num d)\<rparr>)"
  using assms
  by (simp add: dict_next_def reader_next_def skip_blank_nonblank get_fieldnames_known)

lemma row_dict_defined:
  assumes "key \<in> set names"
  shows "\<exists>v. row_dict names row key = Some v"
proof -
  let ?cells = "map Some row @ replicate (length names - length row) None"
  have "length names \<le> length ?cells" by simp
  then have "map fst (zip names ?cells) = names"
    by (simp add: map_fst_zip_take)
  then have "fst ` set (zip names ?cells) = set names"
    by (metis set_map)
  with assms have "key \<in> fst ` set (rev (zip names ?cells))"
    by simp
  then have "map_of (rev (zip names ?cells)) key \<noteq> None"
    by (simp only: map_of_eq_None_iff not_not)
  then show ?thesis
    by (auto simp: row_dict_def)
qed

lemma column_rows:
  assumes "reader_fieldnames d = Some names" and "line_num d \<noteq> 0"
    and "unread d = rows" and "\<forall>row\<in>set rows. row \<noteq> []" and "key \<in> set names"
  shows "column key d
    = (Inr (map (\<lambda>row. the (row_dict names row key)) rows),
       d\<lparr>unread := [], line_num := line_num d + length rows\<rparr>)"
  using assms
proof (induction rows arbitrary: d)
  case Nil
  then have "dict_next d = (StopIteration, d)"
    by (simp add: dict_next_end)
  then have "column key d = (Inr [], d)"
    by (subst column.simps) simp
  with Nil show ?case by simp
next
  case (Cons row rest)
  let ?d' = "d\<lparr>unread := rest, line_num := Suc (line_num d)\<rparr>"
  from Cons.prems have step: "dict_next d = (Yield (Inr (row_dict names row)), ?d')"
    by (intro dict_next_row) simp_all
  from row_dict_defined [OF Cons.prems(5)] obtain v where v: "row_dict names row key = Some v"
    by blast
  have "column key ?d'
    = (Inr (map (\<lambda>row. the (row_dict names row key)) rest),
       ?d'\<lparr>unread := [], line_num := line_num ?d' + length rest\<rparr>)"
    using Cons.prems by (intro Cons.IH) simp_all
  with step v show ?case
    by (subst column.simps) simp
qed

lemma dict_next_fresh:
  "line_num d = 0 \<Longrightarrow> line_num (get_fieldnames d) \<noteq> 0
     \<Longrightarrow> dict_next d = dict_next (get_fieldnames d)"
  by (simp add: dict_next_def)

lemma column_first:
  assumes "\<forall>row\<in>set data. row \<noteq> []" and "key \<in> set names"
  shows "column key (DictReader (names # data))
    = (Inr (map (\<lambda>row. the (row_dict names row key)) data),
       \<lparr>csvfile = names # data, unread = [], reader_fieldnames = Some names,
        line_num = Suc (length data)\<rparr>)"
proof -
  let ?d = "DictReader (names # data)"
  let ?d1 = "\<lparr>csvfile = names # data, unread = data, reader_fieldnames = Some names,
              line_num = Suc 0\<rparr>"
  have "get_fieldnames ?d = ?d1"
    by (simp add: get_fieldnames_def DictReader_def reader_next_def)
  then have "dict_next ?d = dict_next ?d1"
    using dict_next_fresh [of ?d] by (simp add: DictReader_def)
  then have "column key ?d = column key ?d1"
    by (simp add: column.simps [of key ?d] column.simps [of key ?d1])
  also have "\<dots> = (Inr (map (\<lambda>row. the (row_dict names row key)) data),
       ?d1\<lparr>unread := [], line_num := line_num ?d1 + length data\<rparr>)"
    using assms by (intro column_rows) simp_all
  finally show ?thesis by simp
qed

lemma column_again:
  assumes "primed names data d" and "names \<noteq> []"
    and "\<forall>row\<in>set data. row \<noteq> []" and "key \<in> set names"
  shows "column key (seek0 d)
    = (Inr (Some key # map (\<lambda>row. the (row_dict names row key)) data),
       d\<lparr>unread := [], line_num := line_num d + Suc (length data)\<rparr>)"
    and "primed names data (snd (column key (seek0 d)))"
proof -
  have "column key (seek0 d)
    = (Inr (map (\<lambda>row. the (row_dict names row key)) (names # data)),
       (seek0 d)\<lparr>unread := [], line_num := line_num (seek0 d) + length (names # data)\<rparr>)"
    using assms by (intro column_rows) (simp_all add: primed_def seek0_def)
  then show first: "column key (seek0 d)
    = (Inr (Some key # map (\<lambda>row. the (row_dict names row key)) data),
       d\<lparr>unread := [], line_num := line_num d + Suc (length data)\<rparr>)"
    using assms(4) by (simp add: row_dict_self seek0_def)
  show "primed names data (snd (column key (seek0 d)))"
    using assms(1) unfolding first by (simp add: primed_def)
qed

lemma species_column_again:
  assumes "primed names data d" and "names \<noteq> []"
    and "\<forall>row\<in>set data. row \<noteq> []" and "key \<in> set names"
  shows "\<exists>d'. species_column key d = Inr (map (\<lambda>row. the (row_dict names row key)) data, d')
           \<and> primed names data d'"
  using column_again [OF assms]
  by (simp add: species_column_def pop0_def)

lemma species_loop_again:
  assumes "primed names data d" and "names \<noteq> []"
    and "\<forall>row\<in>set data. row \<noteq> []" and "set items \<subseteq> set names"
  shows "species_loop items d done
    = Inr (done @ map (\<lambda>key. map (\<lambda>row. the (row_dict names row key)) data) items)"
  using assms
proof (induction items arbitrary: d "done")
  case Nil
  then show ?case by simp
next
  case (Cons item items)
  from Cons.prems have "item \<in> set names" by simp
  from species_column_again [OF Cons.prems(1-3) this] obtain d' where
    col: "species_column item d = Inr (map (\<lambda>row. the (row_dict names row item)) data, d')"
    and d': "primed names data d'"
    by blast
  have "species_loop items d' (done @ [map (\<lambda>row. the (row_dict names row item)) data])
    = Inr ((done @ [map (\<lambda>row. the (row_dict names row item)) data])
           @ map (\<lambda>key. map (\<lambda>row. the (row_dict names row key)) data) items)"
    using d' Cons.prems by (intro Cons.IH) simp_all
  with col show ?case by simp
qed

lemma map_of_rev_distinct:
  assumes "distinct (map fst xs)"
  shows "map_of (rev xs) = map_of xs"
proof -
  have "distinct (map fst (rev xs))"
    using assms by (simp add: rev_map [symmetric])
  with assms show ?thesis
    by (simp add: map_of_inject_set)
qed

lemma row_dict_last_columns:
  assumes "distinct ys" and "i < length ys" and "length row = length xs + length ys"
  shows "row_dict (xs @ ys) row (ys ! i) = Some (Some (row ! (length xs + i)))"
proof -
  let ?cells = "map Some row"
  let ?A = "zip xs (take (length xs) ?cells)"
  let ?B = "zip ys (drop (length xs) ?cells)"
  have len: "length ys = length (drop (length xs) ?cells)"
    using assms(3) by simp
  have "distinct (map fst ?B)"
    using assms(1) len by (simp add: map_fst_zip_take)
  then have "map_of (rev ?B) (ys ! i) = map_of ?B (ys ! i)"
    by (simp only: map_of_rev_distinct)
  also have "\<dots> = Some (drop (length xs) ?cells ! i)"
    using len assms(1,2) by (intro map_of_zip_nth) simp_all
  also have "drop (length xs) ?cells ! i = Some (row ! (length xs + i))"
    using assms(2,3) by simp
  finally have right: "map_of (rev ?B) (ys ! i) = Some (Some (row ! (length xs + i)))" .
  have "row_dict (xs @ ys) row = map_of (rev (zip (xs @ ys) ?cells))"
    using assms(3) by (simp add: row_dict_def)
  also have "zip (xs @ ys) ?cells = ?A @ ?B"
    by (rule zip_append1)
  also have "map_of (rev (?A @ ?B)) = map_of (rev ?A) ++ map_of (rev ?B)"
    by simp
  finally show ?thesis
    using right by (simp add: map_add_Some_iff)
qed

lemma rows_of_steps:
  "set rows \<subseteq> f ` A \<Longrightarrow> \<exists>sel. rows = map f sel \<and> set sel \<subseteq> A"
proof (induction rows)
  case Nil
  then show ?case by simp
next
  case (Cons row rows)
  then obtain sel where "rows = map f sel" "set sel \<subseteq> A" by auto
  moreover from Cons.prems obtain x where "x \<in> A" "row = f x" by auto
  ultimately show ?case
    by (intro exI [of _ "x # sel"]) simp
qed

lemma write_phase_table:
  "\<exists>sel. set sel \<subseteq> set steps
     \<and> outfile (final (write_phase species_names T0 steps))
         = map PyStr (fieldnames species_names) # map record_of sel"
proof -
  from outfile_grows [of steps "init species_names T0"] obtain rows where
    "outfile (final (write_phase species_names T0 steps))
       = map PyStr (fieldnames species_names) # rows"
    "set rows \<subseteq> record_of ` set steps"
    by (auto simp: write_phase_def)
  with rows_of_steps [of rows record_of "set steps"] show ?thesis
    by auto
qed

lemma csv_field_simps [simp]:
  "csv_field fmt (PyStr name) = name" "csv_field fmt (PyFloat x) = fmt x"
  by (simp_all add: csv_field_def)

lemma csv_row_record_of:
  "map (csv_field fmt) (record_of st)
     = [fmt (sim_step st), fmt (combustor_T st), fmt (combustor_mass st / v_mdot st)]
         @ map fmt (thermo_X st)"
  by (simp add: record_of_def)

lemma combustor_csv_table:
  assumes "outfile s = map PyStr (fieldnames species_names) # map record_of sel"
  shows "combustor_csv fmt s
     = fieldnames species_names # map (\<lambda>st. map (csv_field fmt) (record_of st)) sel"
  using assms by (simp add: combustor_csv_def comp_def)

lemma read_back_table:
  assumes rows: "\<forall>row\<in>set data. row \<noteq> []"
    and keys: "''time'' \<in> set names" "''T'' \<in> set names" "set selectspecies \<subseteq> set names"
  shows "read_back (names # data)
    = Inr \<lparr>column0 = map (\<lambda>row. the (row_dict names row ''time'')) data,
           columnT = map (\<lambda>row. the (row_dict names row ''T'')) data,
           selspeX = map (\<lambda>key. map (\<lambda>row. the (row_dict names row key)) data) selectspecies\<rparr>"
proof -
  let ?d1 = "\<lparr>csvfile = names # data, unread = [], reader_fieldnames = Some names,
              line_num = Suc (length data)\<rparr>"
  have nonempty: "names \<noteq> []"
    using keys(1) by auto
  have first: "column ''time'' (DictReader (names # data))
    = (Inr (map (\<lambda>row. the (row_dict names row ''time'')) data), ?d1)"
    using rows keys(1) by (rule column_first)
  have d1: "primed names data ?d1"
    by (simp add: primed_def)
  note second = column_again [OF d1 nonempty rows keys(2)]
  let ?d2 = "snd (column ''T'' (seek0 ?d1))"
  have loop: "species_loop selectspecies ?d2 []
    = Inr ([] @ map (\<lambda>key. map (\<lambda>row. the (row_dict names row key)) data) selectspecies)"
    using second(2) nonempty rows keys(3) by (rule species_loop_again)
  show ?thesis
    unfolding read_back_def Let_def first
    using loop by (simp add: second(1) pop0_def)
qed

lemma record_rows_nonblank:
  "\<forall>row\<in>set (map (\<lambda>st. map (csv_field fmt) (record_of st)) sel). row \<noteq> []"
  by (simp add: record_of_def)

text \<open>
  Claim C10. After a write phase that left the loop, with the six selected species among the
  model's species, the read-back succeeds. The first pass reads the header as the field names
  and yields one time per data row. Every pass after a rewind yields the header row first,
  as the name of the column itself, and \<^verbatim>\<open>pop(0)\<close> drops it. So the time series, the
  temperature series and the six species series each have one element per data row of the
  file.
\<close>

theorem read_back_lengths:
  assumes "write_phase species_names T0 steps = Exited s"
    and "set selectspecies \<subseteq> set species_names"
  shows "\<exists>p d1. read_back (combustor_csv fmt s) = Inr p
     \<and> column ''time'' (DictReader (combustor_csv fmt s)) = (Inr (column0 p), d1)
     \<and> fst (column ''T'' (seek0 d1)) = Inr (Some ''T'' # columnT p)
     \<and> (\<forall>j<length selectspecies.
          fst (column (selectspecies ! j) (seek0 d1))
            = Inr (Some (selectspecies ! j) # selspeX p ! j))
     \<and> Suc (length (column0 p)) = length (combustor_csv fmt s)
     \<and> Suc (length (columnT p)) = length (combustor_csv fmt s)
     \<and> length (selspeX p) = 6
     \<and> (\<forall>c\<in>set (selspeX p). Suc (length c) = length (combustor_csv fmt s))"
proof -
  let ?names = "fieldnames species_names"
  from write_phase_table [of steps species_names T0] assms(1) obtain sel where
    table: "outfile s = map PyStr ?names # map record_of sel"
    by auto
  let ?data = "map (\<lambda>st. map (csv_field fmt) (record_of st)) sel"
  have csv: "combustor_csv fmt s = ?names # ?data"
    using table by (rule combustor_csv_table)
  have rows: "\<forall>row\<in>set ?data. row \<noteq> []"
    by (rule record_rows_nonblank)
  have keys: "''time'' \<in> set ?names" "''T'' \<in> set ?names" "set selectspecies \<subseteq> set ?names"
    using assms(2) by (auto simp: fieldnames_def)
  let ?p = "\<lparr>column0 = map (\<lambda>row. the (row_dict ?names row ''time'')) ?data,
           columnT = map (\<lambda>row. the (row_dict ?names row ''T'')) ?data,
           selspeX = map (\<lambda>key. map (\<lambda>row. the (row_dict ?names row key)) ?data) selectspecies\<rparr>"
  let ?d1 = "\<lparr>csvfile = ?names # ?data, unread = [], reader_fieldnames = Some ?names,
              line_num = Suc (length ?data)\<rparr>"
  have nonempty: "?names \<noteq> []"
    by (simp add: fieldnames_def)
  have d1: "primed ?names ?data ?d1"
    by (simp add: primed_def)
  have result: "read_back (combustor_csv fmt s) = Inr ?p"
    unfolding csv using rows keys by (rule read_back_table)
  have first: "column ''time'' (DictReader (combustor_csv fmt s)) = (Inr (column0 ?p), ?d1)"
    unfolding csv using column_first [OF rows keys(1)] by simp
  have second: "fst (column ''T'' (seek0 ?d1)) = Inr (Some ''T'' # columnT ?p)"
    using column_again(1) [OF d1 nonempty rows keys(2)] by simp
  have later: "\<forall>j<length selectspecies.
          fst (column (selectspecies ! j) (seek0 ?d1))
            = Inr (Some (selectspecies ! j) # selspeX ?p ! j)"
  proof (intro allI impI)
    fix j
    assume j: "j < length selectspecies"
    with keys(3) have "selectspecies ! j \<in> set ?names"
      using nth_mem by blast
    from column_again(1) [OF d1 nonempty rows this] j
    show "fst (column (selectspecies ! j) (seek0 ?d1))
            = Inr (Some (selectspecies ! j) # selspeX ?p ! j)"
      by simp
  qed
  have lengths: "Suc (length (column0 ?p)) = length (combustor_csv fmt s)"
    "Suc (length (columnT ?p)) = length (combustor_csv fmt s)"
    "length (selspeX ?p) = 6"
    "\<forall>c\<in>set (selspeX ?p). Suc (length c) = length (combustor_csv fmt s)"
    unfolding csv by (auto simp: selectspecies_def)
  show ?thesis
    by (rule exI [of _ ?p], rule exI [of _ ?d1], intro conjI)
      (fact result first second later lengths)+
qed

lemma species_cell:
  assumes "distinct species_names" and "i < length species_names"
    and "length (thermo_X st) = length species_names"
  shows "row_dict (fieldnames species_names) (map (csv_field fmt) (record_of st)) (species_names ! i)
     = Some (Some (fmt (thermo_X st ! i)))"
proof -
  let ?row = "map (csv_field fmt) (record_of st)"
  have "length ?row = length [''time'', ''T'', ''tres''] + length species_names"
    using assms(3) by simp
  from row_dict_last_columns [OF assms(1,2) this]
  have "row_dict (fieldnames species_names) ?row (species_names ! i) = Some (Some (?row ! (3 + i)))"
    by (simp add: fieldnames_def eval_nat_numeral)
  moreover have "?row ! (3 + i) = fmt (thermo_X st ! i)"
    using assms(2,3) by (simp add: csv_row_record_of nth_append)
  ultimately show ?thesis by simp
qed

text \<open>
  Claim C8. After a write phase that left the loop, selecting the column of any species of
  the model, as the loop body of lines 117 to 119 does on a reader that has read the header,
  gives, row for row, the text that was written for that species' mole fraction. The same
  holds of the six series the script collects. The species names are distinct and the
  mole-fraction vector has one entry per species, as the library has them.
\<close>

theorem species_round_trip:
  assumes "write_phase species_names T0 steps = Exited s"
    and "distinct species_names"
    and "\<forall>st\<in>set steps. length (thermo_X st) = length species_names"
  shows "\<exists>sel. set sel \<subseteq> set steps
     \<and> outfile s = map PyStr (fieldnames species_names) # map record_of sel
     \<and> (\<forall>i<length species_names. \<forall>d :: dictreader.
           csvfile d = combustor_csv fmt s
           \<and> reader_fieldnames d = Some (fieldnames species_names) \<and> line_num d \<noteq> 0
           \<longrightarrow> (\<exists>d'. species_column (species_names ! i) d
                  = Inr (map (\<lambda>st. Some (fmt (thermo_X st ! i))) sel, d')))
     \<and> (set selectspecies \<subseteq> set species_names \<longrightarrow>
          (\<exists>p. read_back (combustor_csv fmt s) = Inr p
             \<and> (\<forall>i<length species_names. \<forall>j<length selectspecies.
                   selectspecies ! j = species_names ! i
                   \<longrightarrow> selspeX p ! j = map (\<lambda>st. Some (fmt (thermo_X st ! i))) sel)))"
proof -
  let ?names = "fieldnames species_names"
  from write_phase_table [of steps species_names T0] assms(1) obtain sel where
    sel: "set sel \<subseteq> set steps" and table: "outfile s = map PyStr ?names # map record_of sel"
    by auto
  let ?data = "map (\<lambda>st. map (csv_field fmt) (record_of st)) sel"
  have csv: "combustor_csv fmt s = ?names # ?data"
    using table by (rule combustor_csv_table)
  have rows: "\<forall>row\<in>set ?data. row \<noteq> []"
    by (rule record_rows_nonblank)
  have nonempty: "?names \<noteq> []"
    by (simp add: fieldnames_def)
  have cells: "map (\<lambda>row. the (row_dict ?names row (species_names ! i))) ?data
      = map (\<lambda>st. Some (fmt (thermo_X st ! i))) sel" if "i < length species_names" for i
  proof -
    have "the (row_dict ?names (map (csv_field fmt) (record_of st)) (species_names ! i))
        = Some (fmt (thermo_X st ! i))" if "st \<in> set sel" for st
    proof -
      from that sel assms(3) have "length (thermo_X st) = length species_names" by auto
      from species_cell [OF assms(2) \<open>i < length species_names\<close> this] show ?thesis by simp
    qed
    then show ?thesis by (simp add: comp_def)
  qed
  have any: "\<forall>i<length species_names. \<forall>d :: dictreader.
           csvfile d = combustor_csv fmt s
           \<and> reader_fieldnames d = Some ?names \<and> line_num d \<noteq> 0
           \<longrightarrow> (\<exists>d'. species_column (species_names ! i) d
                  = Inr (map (\<lambda>st. Some (fmt (thermo_X st ! i))) sel, d'))"
  proof (intro allI impI)
    fix i and d :: dictreader
    assume i: "i < length species_names"
      and d: "csvfile d = combustor_csv fmt s
           \<and> reader_fieldnames d = Some ?names \<and> line_num d \<noteq> 0"
    from d csv have "primed ?names ?data d"
      by (simp add: primed_def)
    moreover from i have "species_names ! i \<in> set ?names"
      by (simp add: fieldnames_def)
    ultimately obtain d' where
      "species_column (species_names ! i) d
         = Inr (map (\<lambda>row. the (row_dict ?names row (species_names ! i))) ?data, d')"
      using species_column_again [OF _ nonempty rows] by blast
    with cells [OF i]
    show "\<exists>d'. species_column (species_names ! i) d
                  = Inr (map (\<lambda>st. Some (fmt (thermo_X st ! i))) sel, d')"
      by simp
  qed
  have six: "set selectspecies \<subseteq> set species_names \<longrightarrow>
          (\<exists>p. read_back (combustor_csv fmt s) = Inr p
             \<and> (\<forall>i<length species_names. \<forall>j<length selectspecies.
                   selectspecies ! j = species_names ! i
                   \<longrightarrow> selspeX p ! j = map (\<lambda>st. Some (fmt (thermo_X st ! i))) sel))"
  proof
    assume "set selectspecies \<subseteq> set species_names"
    then have keys: "''time'' \<in> set ?names" "''T'' \<in> set ?names"
      "set selectspecies \<subseteq> set ?names"
      by (auto simp: fieldnames_def)
    let ?p = "\<lparr>column0 = map (\<lambda>row. the (row_dict ?names row ''time'')) ?data,
           columnT = map (\<lambda>row. the (row_dict ?names row ''T'')) ?data,
           selspeX = map (\<lambda>key. map (\<lambda>row. the (row_dict ?names row key)) ?data) selectspecies\<rparr>"
    have result: "read_back (combustor_csv fmt s) = Inr ?p"
      unfolding csv using rows keys by (rule read_back_table)
    have "selspeX ?p ! j = map (\<lambda>st. Some (fmt (thermo_X st ! i))) sel"
      if "i < length species_names" "j < length selectspecies"
        "selectspecies ! j = species_names ! i" for i j
      using that cells [of i] by simp
    with result show "\<exists>p. read_back (combustor_csv fmt s) = Inr p
             \<and> (\<forall>i<length species_names. \<forall>j<length selectspecies.
                   selectspecies ! j = species_names ! i
                   \<longrightarrow> selspeX p ! j = map (\<lambda>st. Some (fmt (thermo_X st ! i))) sel)"
      by (intro exI [of _ ?p]) simp
  qed
  show ?thesis
    by (rule exI [of _ sel], intro conjI) (fact sel table any six)+
qed

theorem read_back_lengths_witness:
  "write_phase selectspecies 300
      [\<lparr>sim_step = 6, combustor_mass = 3, v_mdot = 2, combustor_T = 2500,
        thermo_X = [1, 0, 0, 0, 0, 0]\<rparr>]
     = Exited (final (write_phase selectspecies 300
      [\<lparr>sim_step = 6, combustor_mass = 3, v_mdot = 2, combustor_T = 2500,
        thermo_X = [1, 0, 0, 0, 0, 0]\<rparr>]))
   \<and> (\<exists>p. read_back (combustor_csv (\<lambda>x. if x = 0 then ''0.0'' else ''nonzero'')
         (final (write_phase selectspecies 300
           [\<lparr>sim_step = 6, combustor_mass = 3, v_mdot = 2, combustor_T = 2500,
             thermo_X = [1, 0, 0, 0, 0, 0]\<rparr>]))) = Inr p
        \<and> length (column0 p) = 1 \<and> length (columnT p) = 1 \<and> length (selspeX p) = 6)"
  using read_back_lengths [of selectspecies 300
      "[\<lparr>sim_step = 6, combustor_mass = 3, v_mdot = 2, combustor_T = 2500,
         thermo_X = [1, 0, 0, 0, 0, 0]\<rparr>]"
      "final (write_phase selectspecies 300
         [\<lparr>sim_step = 6, combustor_mass = 3, v_mdot = 2, combustor_T = 2500,
           thermo_X = [1, 0, 0, 0, 0, 0]\<rparr>])"
      "\<lambda>x. if x = 0 then ''0.0'' else ''nonzero''"]
  by (auto simp add: write_phase_def tfinal_def loop_body_ok sample_due_def combustor_csv_def)

theorem species_round_trip_witness:
  "write_phase selectspecies 300
      [\<lparr>sim_step = 6, combustor_mass = 3, v_mdot = 2, combustor_T = 2500,
        thermo_X = [1, 0, 0, 0, 0, 0]\<rparr>]
     = Exited (final (write_phase selectspecies 300
      [\<lparr>sim_step = 6, combustor_mass = 3, v_mdot = 2, combustor_T = 2500,
        thermo_X = [1, 0, 0, 0, 0, 0]\<rparr>]))
   \<and> distinct selectspecies
   \<and> length (thermo_X \<lparr>sim_step = 6, combustor_mass = 3, v_mdot = 2, combustor_T = 2500,
        thermo_X = [1, 0, 0, 0, 0, 0]\<rparr>) = length selectspecies
   \<and> (\<exists>p. read_back (combustor_csv (\<lambda>x. if x = 0 then ''0.0'' else ''nonzero'')
         (final (write_phase selectspecies 300
           [\<lparr>sim_step = 6, combustor_mass = 3, v_mdot = 2, combustor_T = 2500,
             thermo_X = [1, 0, 0, 0, 0, 0]\<rparr>]))) = Inr p
        \<and> selspeX p ! 0 = [Some ''nonzero''] \<and> selspeX p ! 1 = [Some ''0.0''])
   \<and> (\<exists>d'. species_column (selectspecies ! 0)
          \<lparr>csvfile = combustor_csv (\<lambda>x. if x = 0 then ''0.0'' else ''nonzero'')
             (final (write_phase selectspecies 300
               [\<lparr>sim_step = 6, combustor_mass = 3, v_mdot = 2, combustor_T = 2500,
                 thermo_X = [1, 0, 0, 0, 0, 0]\<rparr>])),
           unread = [], reader_fieldnames = Some (fieldnames selectspecies), line_num = 2\<rparr>
        = Inr ([Some ''nonzero''], d'))"
proof -
  let ?st = "\<lparr>sim_step = 6, combustor_mass = 3, v_mdot = 2, combustor_T = 2500,
        thermo_X = [1, 0, 0, 0, 0, 0]\<rparr>"
  let ?fmt = "\<lambda>x :: real. if x = 0 then ''0.0'' else ''nonzero''"
  let ?s = "final (write_phase selectspecies 300 [?st])"
  have exit: "write_phase selectspecies 300 [?st] = Exited ?s"
    by (simp add: write_phase_def tfinal_def loop_body_ok sample_due_def)
  have names: "distinct selectspecies"
    by (simp add: selectspecies_def)
  have len: "\<forall>st\<in>set [?st]. length (thermo_X st) = length selectspecies"
    by (simp add: selectspecies_def)
  let ?d = "\<lparr>csvfile = combustor_csv ?fmt ?s, unread = [],
             reader_fieldnames = Some (fieldnames selectspecies), line_num = 2\<rparr>"
  from species_round_trip [OF exit names len, of ?fmt] obtain sel p where
    sel: "set sel \<subseteq> set [?st]"
      "outfile ?s = map PyStr (fieldnames selectspecies) # map record_of sel"
    and any: "\<forall>i<length selectspecies. \<forall>d :: dictreader.
           csvfile d = combustor_csv ?fmt ?s
           \<and> reader_fieldnames d = Some (fieldnames selectspecies) \<and> line_num d \<noteq> 0
           \<longrightarrow> (\<exists>d'. species_column (selectspecies ! i) d
                  = Inr (map (\<lambda>st. Some (?fmt (thermo_X st ! i))) sel, d'))"
    and p: "read_back (combustor_csv ?fmt ?s) = Inr p"
      "\<forall>i<length selectspecies. \<forall>j<length selectspecies.
          selectspecies ! j = selectspecies ! i
          \<longrightarrow> selspeX p ! j = map (\<lambda>st. Some (?fmt (thermo_X st ! i))) sel"
    by auto
  have "outfile ?s = [map PyStr (fieldnames selectspecies), record_of ?st]"
    by (simp add: write_phase_def tfinal_def loop_body_ok sample_due_def)
  with sel(2) have "map record_of sel = [record_of ?st]" by simp
  then obtain st where "sel = [st]" by auto
  with sel(1) have sel_eq: "sel = [?st]" by simp
  from p(2) [rule_format, of 0 0] sel_eq have "selspeX p ! 0 = [Some ''nonzero'']"
    by (simp add: selectspecies_def)
  moreover from p(2) [rule_format, of 1 1] sel_eq have "selspeX p ! 1 = [Some ''0.0'']"
    by (simp add: selectspecies_def)
  moreover have "length (thermo_X ?st) = length selectspecies"
    by (simp add: selectspecies_def)
  moreover have "\<exists>d'. species_column (selectspecies ! 0) ?d = Inr ([Some ''nonzero''], d')"
    using any [rule_format, of 0 ?d] sel_eq by (simp add: selectspecies_def)
  ultimately show ?thesis
    using exit names p(1) by blast
qed

end
